theory Spec2Isabelle
  imports Main "HOL-Library.Sublist"
begin

section \<open>Bytes, decoded text and Python's substring test\<close>

text \<open>
  The scripts of the repository talk to a MicroPython interpreter over a pipe or a serial
  line. A \<^verbatim>\<open>bytes\<close> value is a list of 8-bit characters; a decoded Python \<^verbatim>\<open>str\<close> is a
  list of code points. A string literal of the source, read as a \<^verbatim>\<open>str\<close>, is the list of
  the code points of its ASCII characters.
\<close>

type_synonym bytes = "char list"

type_synonym pystr = "nat list"

definition ustr :: "string \<Rightarrow> pystr" where
  "ustr s = map of_char s"

text \<open>\<^verbatim>\<open>s.startswith(p)\<close> and \<^verbatim>\<open>p in s\<close>, as a left-to-right search.\<close>

fun startswith :: "'a list \<Rightarrow> 'a list \<Rightarrow> bool" where
  "startswith s [] = True"
| "startswith [] (p # ps) = False"
| "startswith (x # s) (p # ps) = (x = p \<and> startswith s ps)"

fun py_in :: "'a list \<Rightarrow> 'a list \<Rightarrow> bool" where
  "py_in p [] = startswith [] p"
| "py_in p (x # s) = (startswith (x # s) p \<or> py_in p s)"

subsection \<open>\<^verbatim>\<open>bytes.decode('utf-8', errors='replace')\<close>\<close>

text \<open>
  Every buffer is decoded before it is searched. The decoder reads one code point at a
  time; a byte sequence that is not UTF-8 gives U+FFFD (65533) for its longest prefix
  that could still start a code point, and decoding goes on behind that prefix.
  \<open>utf8_step b bs\<close> is the code point read at the byte \<open>b\<close> followed by \<open>bs\<close>, and the
  number of bytes it takes; \<open>seq2\<close>, \<open>seq3\<close> and \<open>seq4\<close> read the sequences of two, three
  and four bytes.
\<close>

definition cont :: "char \<Rightarrow> bool" where
  "cont c \<longleftrightarrow> 128 \<le> (of_char c :: nat) \<and> (of_char c :: nat) \<le> 191"

definition second3 :: "nat \<Rightarrow> char \<Rightarrow> bool" where
  "second3 n c \<longleftrightarrow> cont c \<and> \<not> (if (of_char c :: nat) < 160 then n = 224 else n = 237)"

definition second4 :: "nat \<Rightarrow> char \<Rightarrow> bool" where
  "second4 n c \<longleftrightarrow> cont c \<and> \<not> (if (of_char c :: nat) < 144 then n = 240 else n = 244)"

definition low6 :: "char \<Rightarrow> nat" where
  "low6 c = of_char c - 128"

definition seq2 :: "nat \<Rightarrow> bytes \<Rightarrow> nat \<times> nat" where
  "seq2 n bs =
     (case bs of
        [] \<Rightarrow> (65533, 1)
      | c # _ \<Rightarrow> if cont c then ((n - 192) * 64 + low6 c, 2) else (65533, 1))"

definition seq3 :: "nat \<Rightarrow> bytes \<Rightarrow> nat \<times> nat" where
  "seq3 n bs =
     (case bs of
        [] \<Rightarrow> (65533, 1)
      | c # r \<Rightarrow>
          if \<not> second3 n c then (65533, 1)
          else (case r of
                  [] \<Rightarrow> (65533, 2)
                | d # _ \<Rightarrow>
                    if cont d then ((n - 224) * 4096 + low6 c * 64 + low6 d, 3)
                    else (65533, 2)))"

definition seq4 :: "nat \<Rightarrow> bytes \<Rightarrow> nat \<times> nat" where
  "seq4 n bs =
     (case bs of
        [] \<Rightarrow> (65533, 1)
      | c # r \<Rightarrow>
          if \<not> second4 n c then (65533, 1)
          else (case r of
                  [] \<Rightarrow> (65533, 2)
                | d # r' \<Rightarrow>
                    if \<not> cont d then (65533, 2)
                    else (case r' of
                            [] \<Rightarrow> (65533, 3)
                          | e # _ \<Rightarrow>
                              if cont e
                              then ((n - 240) * 262144 + low6 c * 4096 + low6 d * 64 + low6 e, 4)
                              else (65533, 3))))"

definition utf8_step :: "char \<Rightarrow> bytes \<Rightarrow> nat \<times> nat" where
  "utf8_step b bs =
     (let n = of_char b in
      if n < 128 then (n, 1)
      else if n < 194 then (65533, 1)
      else if n < 224 then seq2 n bs
      else if n < 240 then seq3 n bs
      else if n < 245 then seq4 n bs
      else (65533, 1))"

fun decode :: "bytes \<Rightarrow> pystr" where
  "decode [] = []"
| "decode (b # bs) = fst (utf8_step b bs) # decode (drop (snd (utf8_step b bs) - 1) bs)"

subsection \<open>The completion checks of the read loops\<close>

text \<open>
  \<^verbatim>\<open>debug_csharp_protocol.py\<close>, lines 24 to 29, and \<^verbatim>\<open>test_duplex_stream.py\<close>, line 84:
  \<^verbatim>\<open>
    if "raw REPL" in text and ("CTRL-B" in text or ">" in text): break
    elif "OK" in text and ("\x04" in text or ">" in text): break
  \<close>
  \<^verbatim>\<open>test_raw_repl_flow.py\<close>, line 47, tests the bytes themselves:
  \<^verbatim>\<open>if b">" in output and b"raw REPL" in output\<close>.
\<close>

definition raw_repl_complete :: "pystr \<Rightarrow> bool" where
  "raw_repl_complete text \<longleftrightarrow>
     py_in (ustr ''raw REPL'') text \<and> (py_in (ustr ''CTRL-B'') text \<or> py_in (ustr ''>'') text)"

definition execution_output_found :: "pystr \<Rightarrow> bool" where
  "execution_output_found text \<longleftrightarrow>
     py_in (ustr ''OK'') text \<and> (py_in (ustr [CHR 0x04]) text \<or> py_in (ustr ''>'') text)"

definition read_complete :: "pystr \<Rightarrow> bool" where
  "read_complete text \<longleftrightarrow> raw_repl_complete text \<or> execution_output_found text"

definition flow_complete :: "bytes \<Rightarrow> bool" where
  "flow_complete output \<longleftrightarrow> py_in ''>'' output \<and> py_in ''raw REPL'' output"

section \<open>The channel and the read loops\<close>

text \<open>
  A read of the interpreter's output (\<^verbatim>\<open>proc.stdout.read(n)\<close>) returns bytes, returns
  nothing (\<^verbatim>\<open>b""\<close> at the end of the stream, \<^verbatim>\<open>None\<close> on a non-blocking pipe with no
  data; both are false in a condition and are the empty list here), raises or, on a
  blocking pipe with no data, does not return. The size argument of \<^verbatim>\<open>read\<close> bounds the
  bytes of one outcome and is not modelled.

  The loops are modelled twice. On any pipe and any clock, where a read may never return
  and nothing is known of the time that passes (\<open>rwt_run\<close>): the statements on the loop of
  \<^verbatim>\<open>read_with_timeout\<close> are made there. And on an idealised clock, for examples with
  times: a channel is the script of the reads still to come, for each call the time the
  call itself takes in milliseconds (0 on a non-blocking pipe; the time the call waits on
  a blocking one) and its outcome; once the script is used up every read returns nothing
  at once; the clock is in whole milliseconds and \<^verbatim>\<open>sleep(0.01)\<close> takes \<open>poll_interval\<close>.
\<close>

datatype io_exn = BlockingIOError | OSError

datatype read_outcome = Returned bytes | Raised io_exn

type_synonym channel = "(nat \<times> read_outcome) list"

definition poll_interval :: nat where
  "poll_interval = 10"

text \<open>
  \<^verbatim>\<open>read_with_timeout\<close> of \<^verbatim>\<open>debug_csharp_protocol.py\<close> (lines 9 to 35):
  \<^verbatim>\<open>
    while (time.time() - start_time) < timeout_seconds:
        try:
            data = proc.stdout.read(256)
            if data:
                buffer.extend(data)
                text = buffer.decode('utf-8', errors='replace')
                if "raw REPL" in text and ("CTRL-B" in text or ">" in text): break
                elif "OK" in text and ("\x04" in text or ">" in text): break
            else:
                await asyncio.sleep(0.01)
        except:
            await asyncio.sleep(0.01)
    return buffer.decode('utf-8', errors='replace')
  \<close>
  \<open>rwt_run\<close> is this loop on any pipe and any clock. The pipe and the clock are what the
  loop meets: for its \<open>k\<close>-th loop test, the elapsed time that the test measures (the value
  of \<^verbatim>\<open>time.time() - start_time\<close>, compared with \<^verbatim>\<open>timeout_seconds\<close> as it is) and the
  outcome of the read that follows when the test passes, \<open>None\<close> for a read that never
  returns (the pipe of the script is a blocking one). Nothing is assumed of the clock or of
  the length of a sleep. The loop gives the buffer, the index of the last loop test it
  made and the number of its sleeps; it gives \<open>None\<close> when the call never returns.
\<close>

type_synonym 't pipe = "nat \<Rightarrow> 't \<times> read_outcome option"

definition later :: "'t pipe \<Rightarrow> 't pipe" where
  "later env = (\<lambda>k. env (Suc k))"

partial_function (option) rwt_run ::
    "'t::linorder \<Rightarrow> 't pipe \<Rightarrow> nat \<Rightarrow> nat \<Rightarrow> bytes \<Rightarrow> (bytes \<times> nat \<times> nat) option" where
  "rwt_run timeout_seconds env tests sleeps buffer =
     (if fst (env 0) < timeout_seconds then
        (case snd (env 0) of
           None \<Rightarrow> None
         | Some (Returned d) \<Rightarrow>
             (if d \<noteq> [] then
                (if read_complete (decode (buffer @ d)) then Some (buffer @ d, tests, sleeps)
                 else rwt_run timeout_seconds (later env) (Suc tests) sleeps (buffer @ d))
              else rwt_run timeout_seconds (later env) (Suc tests) (Suc sleeps) buffer)
         | Some (Raised e) \<Rightarrow> rwt_run timeout_seconds (later env) (Suc tests) (Suc sleeps) buffer)
      else Some (buffer, tests, sleeps))"

fun got :: "read_outcome option \<Rightarrow> bytes" where
  "got (Some (Returned d)) = d"
| "got (Some (Raised e)) = []"
| "got None = []"

definition gathered :: "'t pipe \<Rightarrow> nat \<Rightarrow> bytes" where
  "gathered env j = concat (map (\<lambda>k. got (snd (env k))) [0..<j])"

definition pauses :: "'t pipe \<Rightarrow> nat \<Rightarrow> nat" where
  "pauses env j = length (filter (\<lambda>k. got (snd (env k)) = []) [0..<j])"

text \<open>
  \<open>rwt_loop\<close> is the same loop on an idealised clock, for the examples that need times:
  the clock counts whole milliseconds, a read takes the time its outcome names, a sleep
  takes \<open>poll_interval\<close> and nothing else takes time. Beside the buffer it gives the time on
  the clock, counted from \<^verbatim>\<open>start_time\<close>, at which the loop is left.
\<close>

function (sequential) rwt_loop :: "nat \<Rightarrow> channel \<Rightarrow> nat \<Rightarrow> bytes \<Rightarrow> bytes \<times> nat" where
  "rwt_loop timeout_ms [] elapsed buffer =
     (if elapsed < timeout_ms
      then rwt_loop timeout_ms [] (elapsed + poll_interval) buffer
      else (buffer, elapsed))"
| "rwt_loop timeout_ms ((took, Returned d) # ch) elapsed buffer =
     (if elapsed < timeout_ms then
        (if d \<noteq> [] then
           (if read_complete (decode (buffer @ d)) then (buffer @ d, elapsed + took)
            else rwt_loop timeout_ms ch (elapsed + took) (buffer @ d))
         else rwt_loop timeout_ms ch (elapsed + took + poll_interval) buffer)
      else (buffer, elapsed))"
| "rwt_loop timeout_ms ((took, Raised e) # ch) elapsed buffer =
     (if elapsed < timeout_ms
      then rwt_loop timeout_ms ch (elapsed + took + poll_interval) buffer
      else (buffer, elapsed))"
  by pat_completeness auto
termination
  by (relation "measure (\<lambda>(timeout_ms, ch, elapsed, buffer). length ch + (timeout_ms - elapsed))")
    (auto simp: poll_interval_def)

definition read_with_timeout :: "nat \<Rightarrow> channel \<Rightarrow> pystr" where
  "read_with_timeout timeout_ms ch = decode (fst (rwt_loop timeout_ms ch 0 []))"

text \<open>
  The read loop of \<^verbatim>\<open>test_duplex_stream.py\<close> (lines 76 to 88), on a pipe made non-blocking:
  \<^verbatim>\<open>
    while time.time() - start_time < 2.0:
        try:
            data = proc.stdout.read(1024)
            if data:
                response += data
                text = response.decode('utf-8', errors='replace')
                if "raw REPL" in text and ("CTRL-B" in text or ">" in text): break
        except BlockingIOError:
            pass
        time.sleep(0.01)
  \<close>
  Only \<^verbatim>\<open>BlockingIOError\<close> is caught: another exception leaves the loop.
\<close>

function (sequential) duplex_loop :: "channel \<Rightarrow> nat \<Rightarrow> bytes \<Rightarrow> io_exn + bytes \<times> nat" where
  "duplex_loop [] elapsed response =
     (if elapsed < 2000 then duplex_loop [] (elapsed + poll_interval) response
      else Inr (response, elapsed))"
| "duplex_loop ((took, Returned d) # ch) elapsed response =
     (if elapsed < 2000 then
        (if d \<noteq> [] then
           (if raw_repl_complete (decode (response @ d)) then Inr (response @ d, elapsed + took)
            else duplex_loop ch (elapsed + took + poll_interval) (response @ d))
         else duplex_loop ch (elapsed + took + poll_interval) response)
      else Inr (response, elapsed))"
| "duplex_loop ((took, Raised BlockingIOError) # ch) elapsed response =
     (if elapsed < 2000 then duplex_loop ch (elapsed + took + poll_interval) response
      else Inr (response, elapsed))"
| "duplex_loop ((took, Raised OSError) # ch) elapsed response =
     (if elapsed < 2000 then Inl OSError else Inr (response, elapsed))"
  by pat_completeness auto
termination
  by (relation "measure (\<lambda>(ch, elapsed, response). length ch + (2000 - elapsed))")
    (auto simp: poll_interval_def)

text \<open>
  The read loop of \<^verbatim>\<open>test_subprocess_fix.py\<close> (lines 59 to 72): a deadline of one second,
  the check \<^verbatim>\<open>"raw REPL" in text\<close>, a bare \<^verbatim>\<open>except: pass\<close> and a sleep in every round.
\<close>

function (sequential) style_loop :: "channel \<Rightarrow> nat \<Rightarrow> bytes \<Rightarrow> bytes \<times> nat" where
  "style_loop [] elapsed response =
     (if elapsed < 1000 then style_loop [] (elapsed + poll_interval) response
      else (response, elapsed))"
| "style_loop ((took, Returned d) # ch) elapsed response =
     (if elapsed < 1000 then
        (if d \<noteq> [] then
           (if py_in (ustr ''raw REPL'') (decode (response @ d)) then (response @ d, elapsed + took)
            else style_loop ch (elapsed + took + poll_interval) (response @ d))
         else style_loop ch (elapsed + took + poll_interval) response)
      else (response, elapsed))"
| "style_loop ((took, Raised e) # ch) elapsed response =
     (if elapsed < 1000 then style_loop ch (elapsed + took + poll_interval) response
      else (response, elapsed))"
  by pat_completeness auto
termination
  by (relation "measure (\<lambda>(ch, elapsed, response). length ch + (1000 - elapsed))")
    (auto simp: poll_interval_def)


fun swallowed :: "nat \<times> read_outcome \<Rightarrow> nat \<times> read_outcome" where
  "swallowed (took, Returned d) = (took, Returned d)"
| "swallowed (took, Raised e) = (took, Returned [])"

text \<open>
  The timeout classes of \<^verbatim>\<open>test_error_detection.py\<close> (lines 73 to 81), with the seconds
  its descriptions give, in milliseconds.
\<close>

datatype operation = Prompt | Execution | FileTransfer | SoftReboot

fun floor_ms :: "operation \<Rightarrow> nat" where
  "floor_ms Prompt = 2000"
| "floor_ms Execution = 10000"
| "floor_ms FileTransfer = 30000"
| "floor_ms SoftReboot = 15000"



fun has_data :: "nat \<times> read_outcome \<Rightarrow> bool" where
  "has_data (took, Returned d) = (d \<noteq> [])"
| "has_data (took, Raised e) = False"

text \<open>
  The pipe and the clock that a channel stands for: the \<open>k\<close>-th loop test of
  \<open>rwt_loop\<close> sees the time of the reads and sleeps before it.
\<close>

fun env_at :: "channel \<Rightarrow> nat \<Rightarrow> nat \<Rightarrow> nat \<times> read_outcome option" where
  "env_at [] elapsed k = (elapsed + k * poll_interval, Some (Returned []))"
| "env_at ((took, r) # ch) elapsed 0 = (elapsed, Some r)"
| "env_at ((took, r) # ch) elapsed (Suc k) =
     env_at ch (elapsed + took + (if has_data (took, r) then 0 else poll_interval)) k"

definition env_of :: "channel \<Rightarrow> nat \<Rightarrow> nat pipe" where
  "env_of ch elapsed = (\<lambda>k. env_at ch elapsed k)"

section \<open>Chunked file transfer\<close>

text \<open>
  The chunk size by payload size, as \<^verbatim>\<open>quick_test.py\<close> (lines 44 to 52) selects it
  (\<^verbatim>\<open>if size <= 256: chunks = size // 64 ... elif size <= 1024: chunks = size // 256 ...
  else: chunks = size // 512\<close>), and the shorter rule of \<^verbatim>\<open>test_hardware.py\<close> (line 69:
  \<^verbatim>\<open>chunk_size = 64 if size <= 256 else 256\<close>).
\<close>

definition chunk_size_for :: "nat \<Rightarrow> nat" where
  "chunk_size_for sz = (if sz \<le> 256 then 64 else if sz \<le> 1024 then 256 else 512)"

definition simplified_chunk_size :: "nat \<Rightarrow> nat" where
  "simplified_chunk_size sz = (if sz \<le> 256 then 64 else 256)"

text \<open>
  Modelled from the spec: the chunk state of a session and its adjustment after a chunk
  (sections 3 and 4.5); the transfer manager itself is not among the sources. The state
  holds the current chunk size, bounded to 64 and 512, and the last observed throughput.
  After a chunk whose throughput exceeded the configured threshold the size grows, bounded
  at 512; after a chunk that failed or met a memory error the size shrinks, bounded at 64.
  The spec gives neither the threshold nor the amounts: they are the parameters
  \<open>threshold\<close>, \<open>up\<close> and \<open>down\<close>.
\<close>

definition min_chunk :: nat where
  "min_chunk = 64"

definition max_chunk :: nat where
  "max_chunk = 512"

record chunk_state =
  chunk_size :: nat
  last_throughput :: nat

datatype chunk_result = Acknowledged nat | ChunkFailed | ChunkMemoryError

definition initial_state :: "nat \<Rightarrow> chunk_state" where
  "initial_state payload_size = \<lparr>chunk_size = chunk_size_for payload_size, last_throughput = 0\<rparr>"

definition grow :: "nat \<Rightarrow> nat \<Rightarrow> nat" where
  "grow step s = min max_chunk (s + step)"

definition shrink :: "nat \<Rightarrow> nat \<Rightarrow> nat" where
  "shrink step s = max min_chunk (s - step)"

fun after_chunk :: "nat \<Rightarrow> nat \<Rightarrow> nat \<Rightarrow> chunk_state \<Rightarrow> chunk_result \<Rightarrow> chunk_state" where
  "after_chunk threshold up down st (Acknowledged throughput) =
     (if threshold < throughput
      then st\<lparr>chunk_size := grow up (chunk_size st), last_throughput := throughput\<rparr>
      else st\<lparr>last_throughput := throughput\<rparr>)"
| "after_chunk threshold up down st ChunkFailed = st\<lparr>chunk_size := shrink down (chunk_size st)\<rparr>"
| "after_chunk threshold up down st ChunkMemoryError = st\<lparr>chunk_size := shrink down (chunk_size st)\<rparr>"

definition in_bounds :: "chunk_state \<Rightarrow> bool" where
  "in_bounds st \<longleftrightarrow> min_chunk \<le> chunk_size st \<and> chunk_size st \<le> max_chunk"

text \<open>
  \<^verbatim>\<open>base64.b64encode\<close>, which \<^verbatim>\<open>test_hardware.py\<close> (line 66) applies to the test data:
  three bytes give four characters of the alphabet \<^verbatim>\<open>A-Z a-z 0-9 + /\<close>, and a last group
  of one or two bytes is padded with \<^verbatim>\<open>=\<close>.
\<close>

definition enc6 :: "nat \<Rightarrow> char" where
  "enc6 n =
     (if n < 26 then char_of (n + 65)
      else if n < 52 then char_of (n + 71)
      else if n < 62 then char_of (n - 4)
      else if n = 62 then CHR ''+''
      else CHR ''/'')"

fun b64encode :: "bytes \<Rightarrow> string" where
  "b64encode [] = []"
| "b64encode [a] =
     (let x = of_char a :: nat in
      [enc6 (x div 4), enc6 (x mod 4 * 16), CHR ''='', CHR ''=''])"
| "b64encode [a, b] =
     (let x = of_char a :: nat; y = of_char b :: nat in
      [enc6 (x div 4), enc6 (x mod 4 * 16 + y div 16), enc6 (y mod 16 * 4), CHR ''=''])"
| "b64encode (a # b # c # rest) =
     (let x = of_char a :: nat; y = of_char b :: nat; z = of_char c :: nat in
      enc6 (x div 4) # enc6 (x mod 4 * 16 + y div 16) # enc6 (y mod 16 * 4 + z div 64)
        # enc6 (z mod 64) # b64encode rest)"

text \<open>
  Modelled from the spec: the chunk path of a transfer (section 4.5) and its receiving
  side; the sources encode but never slice a payload or decode. The payload is sliced at
  the chunk size, each slice is base64-encoded and sent as one execute cycle, and the
  receiver decodes each chunk and appends the bytes. A chunk that is not base64 text makes
  the receiver fail.
\<close>

definition dec6 :: "char \<Rightarrow> nat option" where
  "dec6 c =
     (let k = of_char c :: nat in
      if 65 \<le> k \<and> k \<le> 90 then Some (k - 65)
      else if 97 \<le> k \<and> k \<le> 122 then Some (k - 71)
      else if 48 \<le> k \<and> k \<le> 57 then Some (k + 4)
      else if k = 43 then Some 62
      else if k = 47 then Some 63
      else None)"

definition byte1 :: "nat \<Rightarrow> nat \<Rightarrow> char" where
  "byte1 p q = char_of (p * 4 + q div 16)"

definition byte2 :: "nat \<Rightarrow> nat \<Rightarrow> char" where
  "byte2 q r = char_of (q mod 16 * 16 + r div 4)"

definition byte3 :: "nat \<Rightarrow> nat \<Rightarrow> char" where
  "byte3 r s = char_of (r mod 4 * 64 + s)"

fun b64decode :: "string \<Rightarrow> bytes option" where
  "b64decode [] = Some []"
| "b64decode (p # q # r # s # rest) =
     (if r = CHR ''='' \<and> s = CHR ''='' \<and> rest = [] then
        (case (dec6 p, dec6 q) of
           (Some a, Some b) \<Rightarrow> Some [byte1 a b]
         | _ \<Rightarrow> None)
      else if s = CHR ''='' \<and> rest = [] then
        (case (dec6 p, dec6 q, dec6 r) of
           (Some a, Some b, Some c) \<Rightarrow> Some [byte1 a b, byte2 b c]
         | _ \<Rightarrow> None)
      else
        (case (dec6 p, dec6 q, dec6 r, dec6 s, b64decode rest) of
           (Some a, Some b, Some c, Some d, Some others) \<Rightarrow>
             Some (byte1 a b # byte2 b c # byte3 c d # others)
         | _ \<Rightarrow> None))"
| "b64decode _ = None"

function slices :: "nat \<Rightarrow> 'a list \<Rightarrow> 'a list list" where
  "slices n xs = (if n = 0 \<or> xs = [] then [] else take n xs # slices n (drop n xs))"
  by pat_completeness auto
termination
  by (relation "measure (\<lambda>(n, xs). length xs)") auto

definition send_chunks :: "nat \<Rightarrow> bytes \<Rightarrow> string list" where
  "send_chunks n payload = map b64encode (slices n payload)"

fun receive_chunks :: "string list \<Rightarrow> bytes option" where
  "receive_chunks [] = Some []"
| "receive_chunks (e # es) =
     (case b64decode e of
        None \<Rightarrow> None
      | Some bs \<Rightarrow> (case receive_chunks es of None \<Rightarrow> None | Some others \<Rightarrow> Some (bs @ others)))"

section \<open>Error classification\<close>

text \<open>
  Modelled from the spec: the error classifier (section 4.4) and the framing of an
  execution response (section 4.3). The sources hold only lists of sample outputs
  (\<^verbatim>\<open>test_error_classification_fix.py\<close>, \<^verbatim>\<open>test_error_detection.py\<close>); no script
  classifies a text. The classifier reads the error-channel text; its rules are tried in
  the order of the spec and the first that matches wins. The errno names that count as a
  file-system error are the parameter \<open>errnos\<close>; the flag \<open>recoverable\<close> is true where the
  spec says so and false elsewhere. The rule for a timeout is not a rule on text: it is the
  failure \<open>NoDelimiter\<close> of the framing.
\<close>

datatype error_kind =
  SyntaxError | RuntimeError | MemoryError | FileSystemError | ImportError
  | TimeoutError | InterruptedError | UnknownError

record classified_error =
  kind :: error_kind
  message :: pystr
  diagnostics :: "(string \<times> nat) list"
  remediation :: string
  recoverable :: bool

fun split_lines :: "pystr \<Rightarrow> pystr list" where
  "split_lines [] = [[]]"
| "split_lines (c # cs) =
     (if c = 10 then [] # split_lines cs
      else (case split_lines cs of [] \<Rightarrow> [[c]] | l # ls \<Rightarrow> (c # l) # ls))"

definition line_begins :: "string list \<Rightarrow> pystr \<Rightarrow> bool" where
  "line_begins names t \<longleftrightarrow>
     list_ex (\<lambda>l. list_ex (\<lambda>n. startswith l (ustr n)) names) (split_lines t)"

definition contains_any :: "string list \<Rightarrow> pystr \<Rightarrow> bool" where
  "contains_any names t \<longleftrightarrow> list_ex (\<lambda>n. py_in (ustr n) t) names"

fun after_first :: "'a list \<Rightarrow> 'a list \<Rightarrow> 'a list option" where
  "after_first p [] = (if p = [] then Some [] else None)"
| "after_first p (x # s) =
     (if startswith (x # s) p then Some (drop (length p) (x # s)) else after_first p s)"

definition is_digit :: "nat \<Rightarrow> bool" where
  "is_digit c \<longleftrightarrow> 48 \<le> c \<and> c \<le> 57"

definition leading_number :: "pystr \<Rightarrow> nat option" where
  "leading_number t =
     (let ds = takeWhile is_digit t
      in if ds = [] then None else Some (foldl (\<lambda>a d. 10 * a + (d - 48)) 0 ds))"

definition stdin_marker :: pystr where
  "stdin_marker = ustr (''File '' @ [CHR 0x22] @ ''<stdin>'' @ [CHR 0x22] @ '', line '')"

definition stdin_line :: "pystr \<Rightarrow> (string \<times> nat) list" where
  "stdin_line t =
     (case after_first stdin_marker t of
        None \<Rightarrow> []
      | Some rest \<Rightarrow> (case leading_number rest of None \<Rightarrow> [] | Some n \<Rightarrow> [(''line'', n)]))"

definition classify :: "string list \<Rightarrow> pystr \<Rightarrow> classified_error option" where
  "classify errnos t =
     (if t = [] then None
      else if line_begins [''SyntaxError''] t then
        Some \<lparr>kind = SyntaxError, message = t, diagnostics = stdin_line t,
              remediation = ''check syntax/indentation/bracket matching'', recoverable = False\<rparr>
      else if line_begins [''NameError'', ''TypeError'', ''AttributeError'', ''ValueError''] t then
        Some \<lparr>kind = RuntimeError, message = t, diagnostics = [],
              remediation = ''verify variable names, calls, and types'', recoverable = False\<rparr>
      else if contains_any [''MemoryError''] t then
        Some \<lparr>kind = MemoryError, message = t, diagnostics = [],
              remediation = ''reduce payload size / retry smaller chunks'', recoverable = True\<rparr>
      else if contains_any (''OSError'' # errnos) t then
        Some \<lparr>kind = FileSystemError, message = t, diagnostics = [],
              remediation = ''check paths, permissions, storage'', recoverable = False\<rparr>
      else if contains_any [''ImportError'', ''ModuleNotFoundError''] t then
        Some \<lparr>kind = ImportError, message = t, diagnostics = [],
              remediation = ''ensure module is present on the device'', recoverable = False\<rparr>
      else if t = ustr ''KeyboardInterrupt'' then
        Some \<lparr>kind = InterruptedError, message = t, diagnostics = [],
              remediation = ''operation cancelled; retry if needed'', recoverable = True\<rparr>
      else
        Some \<lparr>kind = UnknownError, message = t, diagnostics = [],
              remediation = [], recoverable = False\<rparr>)"

text \<open>
  Modelled from the spec: an execution response is stdout, a first 0x04, the error
  channel, a second 0x04 and the prompt; an echo of the submitted code and the marker
  \<^verbatim>\<open>OK\<close> are taken from the front of stdout when they are there. The error text goes to the
  classifier only when it is not empty. The time the cycle took is handed through.
\<close>

record execution_result =
  stdout :: pystr
  stderr :: pystr
  elapsed_ms :: nat
  classified :: "classified_error option"

datatype framing_failure = NoDelimiter | PartialOutput

fun split_eot :: "bytes \<Rightarrow> (bytes \<times> bytes) option" where
  "split_eot [] = None"
| "split_eot (b # bs) =
     (if b = CHR 0x04 then Some ([], bs)
      else (case split_eot bs of None \<Rightarrow> None | Some (before, behind) \<Rightarrow> Some (b # before, behind)))"

definition strip_prefix :: "'a list \<Rightarrow> 'a list \<Rightarrow> 'a list" where
  "strip_prefix p s = (if startswith s p then drop (length p) s else s)"

definition parse_response ::
    "string list \<Rightarrow> bytes \<Rightarrow> nat \<Rightarrow> bytes \<Rightarrow> framing_failure + execution_result" where
  "parse_response errnos code took response =
     (case split_eot response of
        None \<Rightarrow> Inl NoDelimiter
      | Some (out, behind) \<Rightarrow>
          (case split_eot behind of
             None \<Rightarrow> Inl PartialOutput
           | Some (err, prompt) \<Rightarrow>
               Inr \<lparr>stdout = decode (strip_prefix ''OK'' (strip_prefix code out)),
                    stderr = decode err,
                    elapsed_ms = took,
                    classified = (if err = [] then None else classify errnos (decode err))\<rparr>))"

definition classified_of :: "framing_failure + execution_result \<Rightarrow> framing_failure + classified_error option" where
  "classified_of r = map_sum id classified r"

section \<open>Substring search and decoding\<close>

lemma startswith_prefix: "startswith s p \<longleftrightarrow> prefix p s"
  by (induction s p rule: startswith.induct) auto

lemma py_in_sublist: "py_in p s \<longleftrightarrow> sublist p s"
  by (induction s) (auto simp: startswith_prefix sublist_Cons_right)

lemma py_in_single: "py_in [c] s \<longleftrightarrow> c \<in> set s"
  by (induction s) auto

lemma seq2_high: "194 \<le> n \<Longrightarrow> 128 \<le> fst (seq2 n bs)"
proof -
  assume "194 \<le> n"
  then have "2 * 64 \<le> (n - 192) * 64" by (intro mult_le_mono1) simp
  then show ?thesis by (simp add: seq2_def split: list.split)
qed

lemma seq3_high: "224 \<le> n \<Longrightarrow> 128 \<le> fst (seq3 n bs)"
proof (cases "n = 224")
  case True
  have "second3 224 c \<Longrightarrow> 128 \<le> low6 c * 64" for c
  proof -
    assume "second3 224 c"
    then have "32 \<le> low6 c" by (simp add: second3_def low6_def split: if_splits)
    then have "32 * 64 \<le> low6 c * 64" by (intro mult_le_mono1)
    then show ?thesis by simp
  qed
  then show ?thesis using True by (auto simp: seq3_def trans_le_add1 split: list.split)
next
  case False
  assume "224 \<le> n"
  with False have "1 * 4096 \<le> (n - 224) * 4096" by (intro mult_le_mono1) simp
  then show ?thesis by (simp add: seq3_def split: list.split)
qed

lemma seq4_high: "240 \<le> n \<Longrightarrow> 128 \<le> fst (seq4 n bs)"
proof (cases "n = 240")
  case True
  have "second4 240 c \<Longrightarrow> 128 \<le> low6 c * 4096" for c
  proof -
    assume "second4 240 c"
    then have "16 \<le> low6 c" by (simp add: second4_def low6_def split: if_splits)
    then have "16 * 4096 \<le> low6 c * 4096" by (intro mult_le_mono1)
    then show ?thesis by simp
  qed
  then show ?thesis using True by (auto simp: seq4_def trans_le_add1 split: list.split)
next
  case False
  assume "240 \<le> n"
  with False have "1 * 262144 \<le> (n - 240) * 262144" by (intro mult_le_mono1) simp
  then show ?thesis by (simp add: seq4_def split: list.split)
qed

lemma utf8_step_ascii: "(of_char b :: nat) < 128 \<Longrightarrow> utf8_step b bs = (of_char b, 1)"
  by (simp add: utf8_step_def)

lemma utf8_step_high: "128 \<le> (of_char b :: nat) \<Longrightarrow> 128 \<le> fst (utf8_step b bs)"
  by (simp add: utf8_step_def Let_def seq2_high seq3_high seq4_high)

lemma second3_cont: "second3 n c \<Longrightarrow> cont c"
  by (simp add: second3_def)

lemma second4_cont: "second4 n c \<Longrightarrow> cont c"
  by (simp add: second4_def)

lemma seq2_taken: "c \<in> set (take (snd (seq2 n bs) - 1) bs) \<Longrightarrow> cont c"
  by (cases bs) (simp_all add: seq2_def split: if_splits)

lemma seq3_taken: "c \<in> set (take (snd (seq3 n bs) - 1) bs) \<Longrightarrow> cont c"
proof (cases bs)
  case Nil
  assume "c \<in> set (take (snd (seq3 n bs) - 1) bs)"
  with Nil show ?thesis by simp
next
  case (Cons x r)
  assume "c \<in> set (take (snd (seq3 n bs) - 1) bs)"
  with Cons show ?thesis
    by (cases r) (auto simp: seq3_def dest: second3_cont split: if_splits)
qed

lemma seq4_taken: "c \<in> set (take (snd (seq4 n bs) - 1) bs) \<Longrightarrow> cont c"
proof (cases bs)
  case Nil
  assume "c \<in> set (take (snd (seq4 n bs) - 1) bs)"
  with Nil show ?thesis by simp
next
  case (Cons x r)
  assume a: "c \<in> set (take (snd (seq4 n bs) - 1) bs)"
  show ?thesis
  proof (cases r)
    case Nil
    with a Cons show ?thesis by (auto simp: seq4_def dest: second4_cont split: if_splits)
  next
    case r: (Cons y r')
    with a Cons show ?thesis
      by (cases r') (auto simp: seq4_def dest: second4_cont split: if_splits)
  qed
qed

lemma utf8_step_taken:
  "c \<in> set (take (snd (utf8_step b bs) - 1) bs) \<Longrightarrow> 128 \<le> (of_char c :: nat)"
proof -
  assume a: "c \<in> set (take (snd (utf8_step b bs) - 1) bs)"
  have "cont c"
    using a seq2_taken [of c "of_char b" bs] seq3_taken [of c "of_char b" bs]
      seq4_taken [of c "of_char b" bs]
    by (auto simp: utf8_step_def Let_def split: if_splits)
  then show ?thesis by (simp add: cont_def)
qed

lemma prefix_decode:
  "\<forall>c\<in>set p. (of_char c :: nat) < 128 \<Longrightarrow> prefix (ustr p) (decode bs) \<longleftrightarrow> prefix p bs"
proof (induction p arbitrary: bs)
  case Nil
  then show ?case by (simp add: ustr_def)
next
  case (Cons c p)
  show ?case
  proof (cases bs)
    case Nil
    then show ?thesis by (simp add: ustr_def)
  next
    case (Cons b r)
    show ?thesis
    proof (cases "(of_char b :: nat) < 128")
      case True
      have "prefix (ustr p) (decode r) \<longleftrightarrow> prefix p r"
        using Cons.IH Cons.prems by simp
      then show ?thesis
        using True \<open>bs = b # r\<close> by (auto simp: ustr_def utf8_step_ascii)
    next
      case False
      then have "128 \<le> fst (utf8_step b r)"
        by (simp add: utf8_step_high)
      moreover have "(of_char c :: nat) < 128"
        using Cons.prems by simp
      ultimately show ?thesis
        using False \<open>bs = b # r\<close> by (auto simp: ustr_def)
    qed
  qed
qed

lemma sublist_skip_high:
  assumes "\<forall>c\<in>set p. (of_char c :: nat) < 128" and "p \<noteq> []"
    and "\<forall>c\<in>set hs. 128 \<le> (of_char c :: nat)"
  shows "sublist p (hs @ s) \<longleftrightarrow> sublist p s"
  using assms(3)
proof (induction hs)
  case Nil
  then show ?case by simp
next
  case (Cons h hs)
  have "\<not> prefix p (h # hs @ s)"
  proof
    assume "prefix p (h # hs @ s)"
    then have "hd p = h"
      using assms(2) by (cases p) auto
    moreover have "hd p \<in> set p"
      using assms(2) by simp
    ultimately show False
      using assms(1) Cons.prems by fastforce
  qed
  then show ?case
    using Cons by (simp add: sublist_Cons_right)
qed

lemma sublist_decode:
  assumes "\<forall>c\<in>set p. (of_char c :: nat) < 128"
  shows "sublist (ustr p) (decode bs) \<longleftrightarrow> sublist p bs"
proof (cases "p = []")
  case True
  then show ?thesis by (simp add: ustr_def)
next
  case False
  show ?thesis
  proof (induction bs rule: decode.induct)
    case 1
    then show ?case using False by (simp add: ustr_def)
  next
    case (2 b bs)
    let ?k = "snd (utf8_step b bs) - 1"
    show ?case
    proof (cases "(of_char b :: nat) < 128")
      case True
      then have "?k = 0" by (simp add: utf8_step_ascii)
      then have "sublist (ustr p) (decode bs) \<longleftrightarrow> sublist p bs"
        using "2.IH" by simp
      moreover have "prefix (ustr p) (decode (b # bs)) \<longleftrightarrow> prefix p (b # bs)"
        using assms by (rule prefix_decode)
      ultimately show ?thesis
        using \<open>?k = 0\<close> by (simp add: sublist_Cons_right)
    next
      case high: False
      have "\<not> prefix (ustr p) (decode (b # bs))"
        using prefix_decode [OF assms, of "b # bs"] high False assms
        by (cases p) auto
      then have "sublist (ustr p) (decode (b # bs)) \<longleftrightarrow> sublist (ustr p) (decode (drop ?k bs))"
        by (simp add: sublist_Cons_right)
      also have "\<dots> \<longleftrightarrow> sublist p (drop ?k bs)"
        using "2.IH" .
      also have "\<dots> \<longleftrightarrow> sublist p ((b # take ?k bs) @ drop ?k bs)"
      proof (rule sublist_skip_high [symmetric, OF assms False])
        show "\<forall>c\<in>set (b # take ?k bs). 128 \<le> (of_char c :: nat)"
          using high utf8_step_taken [of _ b bs] by auto
      qed
      finally show ?thesis by simp
    qed
  qed
qed

lemma py_in_decode:
  "\<forall>c\<in>set p. (of_char c :: nat) < 128 \<Longrightarrow> py_in (ustr p) (decode bs) \<longleftrightarrow> sublist p bs"
  by (simp add: py_in_sublist sublist_decode)

lemma sublist_single: "sublist [c] s \<longleftrightarrow> c \<in> set s"
  using py_in_single [of c s] by (simp add: py_in_sublist)

lemma raw_repl_complete_bytes:
  "raw_repl_complete (decode buf) \<longleftrightarrow>
     sublist ''raw REPL'' buf \<and> (sublist ''CTRL-B'' buf \<or> CHR ''>'' \<in> set buf)"
  by (simp add: raw_repl_complete_def py_in_decode sublist_single)

lemma execution_output_found_bytes:
  "execution_output_found (decode buf) \<longleftrightarrow>
     sublist ''OK'' buf \<and> (CHR 0x04 \<in> set buf \<or> CHR ''>'' \<in> set buf)"
  by (simp add: execution_output_found_def py_in_decode sublist_single)

section \<open>Facts about the read loop\<close>

declare rwt_loop.simps [simp del]

lemma rwt_expired: "timeout_ms \<le> elapsed \<Longrightarrow> rwt_loop timeout_ms ch elapsed buffer = (buffer, elapsed)"
  by (cases "(timeout_ms, ch, elapsed, buffer)" rule: rwt_loop.cases) (simp_all add: rwt_loop.simps)

lemma rwt_silent_buffer: "fst (rwt_loop timeout_ms [] elapsed buffer) = buffer"
  by (induction timeout_ms "[] :: channel" elapsed buffer rule: rwt_loop.induct)
    (subst rwt_loop.simps, simp)

lemma rwt_silent_time:
  "elapsed < timeout_ms \<Longrightarrow>
   timeout_ms \<le> snd (rwt_loop timeout_ms [] elapsed buffer)
   \<and> snd (rwt_loop timeout_ms [] elapsed buffer) < timeout_ms + poll_interval
   \<and> snd (rwt_loop timeout_ms [] elapsed buffer) mod poll_interval = elapsed mod poll_interval"
proof (induction timeout_ms "[] :: channel" elapsed buffer rule: rwt_loop.induct)
  case (1 timeout_ms elapsed buffer)
  have step: "rwt_loop timeout_ms [] elapsed buffer
      = rwt_loop timeout_ms [] (elapsed + poll_interval) buffer"
    using "1.prems" by (subst rwt_loop.simps) simp
  show ?case
  proof (cases "elapsed + poll_interval < timeout_ms")
    case True
    then show ?thesis
      using "1.hyps" "1.prems" by (simp add: step)
  next
    case False
    then have "rwt_loop timeout_ms [] (elapsed + poll_interval) buffer
        = (buffer, elapsed + poll_interval)"
      by (simp add: rwt_expired)
    then show ?thesis
      using False "1.prems" by (simp add: step)
  qed
qed

lemma read_complete_bytes:
  "read_complete (decode buf) \<longleftrightarrow>
     (sublist ''raw REPL'' buf \<and> (sublist ''CTRL-B'' buf \<or> CHR ''>'' \<in> set buf))
     \<or> (sublist ''OK'' buf \<and> (CHR 0x04 \<in> set buf \<or> CHR ''>'' \<in> set buf))"
  by (simp add: read_complete_def raw_repl_complete_bytes execution_output_found_bytes)

lemma rwt_time_bound:
  "\<forall>r\<in>set ch. fst r \<le> L \<Longrightarrow> elapsed < timeout_ms + poll_interval + L \<Longrightarrow>
   snd (rwt_loop timeout_ms ch elapsed buffer) < timeout_ms + poll_interval + L"
proof (induction timeout_ms ch elapsed buffer rule: rwt_loop.induct)
  case (1 timeout_ms elapsed buffer)
  then show ?case by (subst rwt_loop.simps) simp
next
  case (2 timeout_ms took d ch elapsed buffer)
  then show ?case by (subst rwt_loop.simps) (simp add: poll_interval_def)
next
  case (3 timeout_ms took e ch elapsed buffer)
  then show ?case by (subst rwt_loop.simps) simp
qed

lemma rwt_incomplete_at_deadline:
  "\<not> read_complete (decode (fst (rwt_loop timeout_ms ch elapsed buffer))) \<Longrightarrow>
   timeout_ms \<le> snd (rwt_loop timeout_ms ch elapsed buffer)"
proof (induction timeout_ms ch elapsed buffer rule: rwt_loop.induct)
  case (1 timeout_ms elapsed buffer)
  show ?case
  proof (cases "elapsed < timeout_ms")
    case True
    then show ?thesis using rwt_silent_time by blast
  next
    case False
    then show ?thesis by (simp add: rwt_expired)
  qed
next
  case (2 timeout_ms took d ch elapsed buffer)
  then show ?case by (simp add: rwt_loop.simps split: if_splits)
next
  case (3 timeout_ms took e ch elapsed buffer)
  then show ?case by (simp add: rwt_loop.simps split: if_splits)
qed

lemma rwt_failed_read_is_empty_read:
  "rwt_loop timeout_ms (map swallowed ch) elapsed buffer = rwt_loop timeout_ms ch elapsed buffer"
proof (induction timeout_ms ch elapsed buffer rule: rwt_loop.induct)
  case (1 timeout_ms elapsed buffer)
  then show ?case by simp
next
  case (2 timeout_ms took d ch elapsed buffer)
  then show ?case by (simp add: rwt_loop.simps)
next
  case (3 timeout_ms took e ch elapsed buffer)
  then show ?case by (simp add: rwt_loop.simps)
qed

lemma gathered_Suc: "gathered env (Suc j) = got (snd (env 0)) @ gathered (later env) j"
proof -
  have "[0..<Suc j] = 0 # map Suc [0..<j]"
    by (simp add: upt_conv_Cons map_Suc_upt del: upt_Suc)
  then show ?thesis
    by (simp add: gathered_def later_def comp_def del: upt_Suc)
qed

lemma pauses_Suc:
  "pauses env (Suc j) = (if got (snd (env 0)) = [] then 1 else 0) + pauses (later env) j"
proof -
  have "[0..<Suc j] = 0 # map Suc [0..<j]"
    by (simp add: upt_conv_Cons map_Suc_upt del: upt_Suc)
  then show ?thesis
    by (simp add: pauses_def later_def filter_map comp_def del: upt_Suc)
qed

lemma rwt_run_expires:
  assumes "\<forall>k<j. fst (env k) < tmo \<and> snd (env k) \<noteq> None
             \<and> \<not> read_complete (decode (buffer @ gathered env (Suc k)))"
    and "\<not> fst (env j) < tmo"
  shows "rwt_run tmo env n s buffer = Some (buffer @ gathered env j, n + j, s + pauses env j)"
  using assms
proof (induction j arbitrary: env n s buffer)
  case 0
  then show ?case
    by (subst rwt_run.simps) (simp add: gathered_def pauses_def)
next
  case (Suc j)
  have first: "fst (env 0) < tmo" "snd (env 0) \<noteq> None"
    "\<not> read_complete (decode (buffer @ got (snd (env 0))))"
    using Suc.prems(1) [rule_format, of 0] by (simp_all add: gathered_def)
  have rest: "\<forall>k<j. fst (later env k) < tmo \<and> snd (later env k) \<noteq> None
      \<and> \<not> read_complete (decode ((buffer @ got (snd (env 0))) @ gathered (later env) (Suc k)))"
  proof (intro allI impI)
    fix k assume "k < j"
    then show "fst (later env k) < tmo \<and> snd (later env k) \<noteq> None
      \<and> \<not> read_complete (decode ((buffer @ got (snd (env 0))) @ gathered (later env) (Suc k)))"
      using Suc.prems(1) [rule_format, of "Suc k"] by (simp add: later_def [of env] gathered_Suc [of env])
  qed
  have last: "\<not> fst (later env j) < tmo"
    using Suc.prems(2) by (simp add: later_def)
  have ih: "rwt_run tmo (later env) n' s' (buffer @ got (snd (env 0)))
      = Some ((buffer @ got (snd (env 0))) @ gathered (later env) j, n' + j, s' + pauses (later env) j)"
    for n' s'
    using rest last by (rule Suc.IH)
  obtain r where r: "snd (env 0) = Some r"
    using first(2) by blast
  show ?case
  proof (cases r)
    case (Returned d)
    show ?thesis
    proof (cases "d = []")
      case True
      then show ?thesis
        using first r Returned ih [of "Suc n" "Suc s"]
        by (subst rwt_run.simps) (simp add: gathered_Suc pauses_Suc)
    next
      case False
      then show ?thesis
        using first r Returned ih [of "Suc n" s]
        by (subst rwt_run.simps) (simp add: gathered_Suc pauses_Suc)
    qed
  next
    case (Raised e)
    then show ?thesis
      using first r ih [of "Suc n" "Suc s"]
      by (subst rwt_run.simps) (simp add: gathered_Suc pauses_Suc)
  qed
qed

lemma rwt_run_skip:
  assumes "\<forall>k<j. fst (env k) < tmo \<and> (\<exists>e. snd (env k) = Some (Raised e))"
  shows "rwt_run tmo env n s buffer = rwt_run tmo (\<lambda>k. env (j + k)) (n + j) (s + j) buffer"
  using assms
proof (induction j arbitrary: env n s)
  case 0
  then show ?case by simp
next
  case (Suc j)
  obtain e where first: "fst (env 0) < tmo" "snd (env 0) = Some (Raised e)"
    using Suc.prems [rule_format, of 0] by auto
  have "\<forall>k<j. fst (later env k) < tmo \<and> (\<exists>e. snd (later env k) = Some (Raised e))"
    using Suc.prems by (simp add: later_def)
  then have "rwt_run tmo (later env) (Suc n) (Suc s) buffer
      = rwt_run tmo (\<lambda>k. later env (j + k)) (Suc n + j) (Suc s + j) buffer"
    by (rule Suc.IH)
  then show ?case
    using first by (subst rwt_run.simps) (simp add: later_def)
qed

text \<open>
  The loop on the idealised clock is the loop on the pipe and clock that the channel
  stands for: both return the same buffer.
\<close>

lemma env_of_later:
  "later (env_of ((took, r) # ch) elapsed)
     = env_of ch (elapsed + took + (if has_data (took, r) then 0 else poll_interval))"
  by (rule ext) (simp add: later_def env_of_def)

lemma env_of_silent_later: "later (env_of [] elapsed) = env_of [] (elapsed + poll_interval)"
  by (rule ext) (simp add: later_def env_of_def)

lemma env_of_now:
  "env_of [] elapsed 0 = (elapsed, Some (Returned []))"
  "env_of ((took, r) # ch) elapsed 0 = (elapsed, Some r)"
  by (simp_all add: env_of_def)

lemma rwt_loop_is_run:
  "map_option fst (rwt_run timeout_ms (env_of ch elapsed) n s buffer)
     = Some (fst (rwt_loop timeout_ms ch elapsed buffer))"
proof (induction timeout_ms ch elapsed buffer arbitrary: n s rule: rwt_loop.induct)
  case (1 timeout_ms elapsed buffer)
  then show ?case
    by (subst rwt_run.simps, subst rwt_loop.simps) (simp add: env_of_silent_later env_of_now)
next
  case (2 timeout_ms took d ch elapsed buffer)
  then show ?case
    by (subst rwt_run.simps, subst rwt_loop.simps) (simp add: env_of_later env_of_now)
next
  case (3 timeout_ms took e ch elapsed buffer)
  then show ?case
    by (subst rwt_run.simps, subst rwt_loop.simps) (simp add: env_of_later env_of_now)
qed

lemma gathered_prefix: "m \<le> j \<Longrightarrow> \<exists>rest. gathered env j = gathered env m @ rest"
proof -
  assume "m \<le> j"
  then have "[0..<j] = [0..<m] @ [m..<j]"
    by (metis le_add_diff_inverse upt_add_eq_append zero_le)
  then show ?thesis
    by (simp add: gathered_def)
qed

lemma sublist_of_prefix: "sublist p a \<Longrightarrow> sublist p (a @ b)"
  unfolding sublist_def by (metis append.assoc)

lemma incomplete_without_markers:
  assumes "\<not> sublist ''OK'' (gathered env j)" and "\<not> sublist ''raw REPL'' (gathered env j)"
    and "m \<le> j"
  shows "\<not> read_complete (decode (gathered env m))"
proof
  assume "read_complete (decode (gathered env m))"
  then have "sublist ''raw REPL'' (gathered env m) \<or> sublist ''OK'' (gathered env m)"
    by (auto simp: read_complete_bytes)
  moreover obtain rest where "gathered env j = gathered env m @ rest"
    using gathered_prefix [OF assms(3)] by blast
  ultimately show False
    using assms(1,2) sublist_of_prefix by metis
qed


declare duplex_loop.simps [simp del] style_loop.simps [simp del]

lemma style_silent:
  "elapsed < 1000 \<Longrightarrow>
   fst (style_loop [] elapsed response) = response
   \<and> 1000 \<le> snd (style_loop [] elapsed response)
   \<and> snd (style_loop [] elapsed response) < 1000 + poll_interval
   \<and> snd (style_loop [] elapsed response) mod poll_interval = elapsed mod poll_interval"
proof (induction "[] :: channel" elapsed response rule: style_loop.induct)
  case (1 elapsed response)
  have step: "style_loop [] elapsed response = style_loop [] (elapsed + poll_interval) response"
    using "1.prems" by (subst style_loop.simps) simp
  show ?case
  proof (cases "elapsed + poll_interval < 1000")
    case True
    then show ?thesis
      using "1.hyps" "1.prems" by (simp add: step)
  next
    case False
    then have "style_loop [] (elapsed + poll_interval) response = (response, elapsed + poll_interval)"
      by (subst style_loop.simps) simp
    then show ?thesis
      using False "1.prems" by (simp add: step)
  qed
qed

lemma style_prompt_deadline: "style_loop [] 0 [] = ([], 1000)"
proof -
  have "1000 \<le> snd (style_loop [] 0 [])" "snd (style_loop [] 0 []) < 1010"
    "snd (style_loop [] 0 []) mod 10 = 0"
    using style_silent [of 0 "[]"] by (simp_all add: poll_interval_def)
  then have "snd (style_loop [] 0 []) = 1000"
    by presburger
  then show ?thesis
    using style_silent [of 0 "[]"] by (simp add: prod_eq_iff)
qed

lemma duplex_time_bound:
  "\<forall>r\<in>set ch. fst r \<le> L \<Longrightarrow> elapsed < 2000 + poll_interval + L \<Longrightarrow>
   (case duplex_loop ch elapsed response of
      Inl e \<Rightarrow> True
    | Inr (buf, t) \<Rightarrow> t < 2000 + poll_interval + L)"
proof (induction ch elapsed response rule: duplex_loop.induct)
  case (1 elapsed response)
  then show ?case by (subst duplex_loop.simps) simp
next
  case (2 took d ch elapsed response)
  then show ?case by (subst duplex_loop.simps) (simp add: poll_interval_def)
next
  case (3 took ch elapsed response)
  then show ?case by (subst duplex_loop.simps) simp
next
  case (4 took ch elapsed response)
  then show ?case by (subst duplex_loop.simps) simp
qed

lemma duplex_failure_propagates:
  "elapsed < 2000 \<Longrightarrow> duplex_loop ((took, Raised OSError) # ch) elapsed response = Inl OSError"
  by (simp add: duplex_loop.simps)

section \<open>Facts about the transfer\<close>

lemma initial_in_bounds: "in_bounds (initial_state n)"
  by (simp add: in_bounds_def initial_state_def chunk_size_for_def min_chunk_def max_chunk_def)

lemma after_chunk_in_bounds: "in_bounds st \<Longrightarrow> in_bounds (after_chunk threshold up down st r)"
  by (cases r) (auto simp: in_bounds_def grow_def shrink_def min_chunk_def max_chunk_def)

lemma foldl_in_bounds:
  "in_bounds st \<Longrightarrow> in_bounds (foldl (after_chunk threshold up down) st rs)"
  by (induction rs arbitrary: st) (simp_all add: after_chunk_in_bounds)

declare slices.simps [simp del]

lemma dec6_enc6: "n < 64 \<Longrightarrow> dec6 (enc6 n) = Some n"
  by (simp add: dec6_def enc6_def Let_def of_char_of) arith

lemma enc6_not_pad: "n < 64 \<Longrightarrow> enc6 n \<noteq> CHR ''=''"
proof
  assume "n < 64" and "enc6 n = CHR ''=''"
  then have "dec6 (CHR ''='') = Some n" using dec6_enc6 by metis
  then show False by (simp add: dec6_def)
qed

lemma pack_div: "d < n \<Longrightarrow> (m * n + d) div n = (m::nat)"
  by simp

lemma pack_mod: "d < n \<Longrightarrow> (m * n + d) mod n = (d::nat)"
  by simp

lemma high4: "y < 256 \<Longrightarrow> y div 16 < (16::nat)"
  by arith

lemma high2: "z < 256 \<Longrightarrow> z div 64 < (4::nat)"
  by arith

lemma sextet1: "x < 256 \<Longrightarrow> x div 4 < (64::nat)"
  by arith

lemma sextet2: "y < 256 \<Longrightarrow> x mod 4 * 16 + y div 16 < (64::nat)"
  by arith

lemma sextet3: "z < 256 \<Longrightarrow> y mod 16 * 4 + z div 64 < (64::nat)"
  by arith

lemma sextet2': "x mod 4 * 16 < (64::nat)"
  by arith

lemma sextet3': "y mod 16 * 4 < (64::nat)"
  by arith

lemma regroup1: "y < 256 \<Longrightarrow> x div 4 * 4 + (x mod 4 * 16 + y div 16) div 16 = (x::nat)"
  by (simp only: pack_div high4 div_mult_mod_eq)

lemma regroup2:
  "y < 256 \<Longrightarrow> z < 256 \<Longrightarrow>
   (x mod 4 * 16 + y div 16) mod 16 * 16 + (y mod 16 * 4 + z div 64) div 4 = (y::nat)"
  by (simp only: pack_div pack_mod high4 high2 div_mult_mod_eq)

lemma regroup3: "z < 256 \<Longrightarrow> (y mod 16 * 4 + z div 64) mod 4 * 64 + z mod 64 = (z::nat)"
  by (simp only: pack_mod high2 div_mult_mod_eq)

lemma regroup2': "y < 256 \<Longrightarrow> (x mod 4 * 16 + y div 16) mod 16 * 16 + y mod 16 * 4 div 4 = (y::nat)"
  by (simp add: pack_mod high4)

lemma regroup1': "x div 4 * 4 + x mod 4 * 16 div 16 = (x::nat)"
  by simp

lemma byte_bound: "(of_char c :: nat) < 256"
  by simp

lemma byte1_pair: "byte1 (of_char a div 4) (of_char a mod 4 * 16 + of_char b div 16) = a"
  unfolding byte1_def by (simp only: regroup1 [OF byte_bound] char_of_char)

lemma byte1_single: "byte1 (of_char a div 4) (of_char a mod 4 * 16) = a"
  unfolding byte1_def by (simp only: regroup1' char_of_char)

lemma byte2_triple:
  "byte2 (of_char a mod 4 * 16 + of_char b div 16) (of_char b mod 16 * 4 + of_char c div 64) = b"
  unfolding byte2_def by (simp only: regroup2 [OF byte_bound byte_bound] char_of_char)

lemma byte2_pair: "byte2 (of_char a mod 4 * 16 + of_char b div 16) (of_char b mod 16 * 4) = b"
  unfolding byte2_def by (simp only: regroup2' [OF byte_bound] char_of_char)

lemma byte3_triple: "byte3 (of_char b mod 16 * 4 + of_char c div 64) (of_char c mod 64) = c"
  unfolding byte3_def by (simp only: regroup3 [OF byte_bound] char_of_char)

lemma b64_roundtrip: "b64decode (b64encode bs) = Some bs"
proof (induction bs rule: b64encode.induct)
  case 1
  then show ?case by simp
next
  case (2 a)
  show ?case
    by (simp add: Let_def dec6_enc6 sextet1 sextet2' byte1_single)
next
  case (3 a b)
  show ?case
    by (simp add: Let_def dec6_enc6 enc6_not_pad sextet1 sextet2 sextet3' byte1_pair byte2_pair)
next
  case (4 a b c rest)
  then show ?case
    by (simp add: Let_def dec6_enc6 enc6_not_pad sextet1 sextet2 sextet3
        byte1_pair byte2_triple byte3_triple)
qed

lemma concat_slices: "0 < n \<Longrightarrow> concat (slices n xs) = xs"
proof (induction n xs rule: slices.induct)
  case (1 n xs)
  then show ?case by (subst slices.simps) auto
qed

lemma receive_encoded: "receive_chunks (map b64encode cs) = Some (concat cs)"
  by (induction cs) (simp_all add: b64_roundtrip)

section \<open>Raw-mode entry\<close>

text \<open>
  C1. The completion check for raw-mode entry holds exactly when the buffer contains
  \<^verbatim>\<open>raw REPL\<close> and, in addition, contains \<^verbatim>\<open>CTRL-B\<close> or contains the prompt byte \<^verbatim>\<open>>\<close>
  at any position (the scripts test \<^verbatim>\<open>">" in text\<close>, not the last byte): for every byte
  buffer, the check on the decoded buffer is this condition on the bytes.
\<close>

theorem raw_entry_check_iff:
  "raw_repl_complete (decode buf) \<longleftrightarrow>
     sublist ''raw REPL'' buf \<and> (sublist ''CTRL-B'' buf \<or> sublist ''>'' buf)"
  by (simp add: raw_repl_complete_def py_in_decode)

text \<open>
  The buffer \<^verbatim>\<open>raw REPL>x\<close> passes the checks of all three scripts, though it has no
  \<^verbatim>\<open>CTRL-B\<close> and its last byte is not the prompt.
\<close>

theorem raw_entry_tail_counterexample:
  "raw_repl_complete (decode ''raw REPL>x'') \<and> flow_complete ''raw REPL>x''
   \<and> \<not> (py_in ''raw REPL'' ''raw REPL>x''
        \<and> (py_in ''CTRL-B'' ''raw REPL>x'' \<or> last ''raw REPL>x'' = CHR ''>''))"
  by (simp add: raw_repl_complete_def flow_complete_def ustr_def utf8_step_def)

section \<open>Execution output\<close>

text \<open>
  C2. The completion check of \<^verbatim>\<open>read_with_timeout\<close> does not accept a response that has
  neither the marker \<^verbatim>\<open>OK\<close> nor the text \<^verbatim>\<open>raw REPL\<close>. For every pipe and clock: when the
  reads return and the bytes gathered up to the first loop test that fails hold neither
  of the two, the call is left at that loop test and not before, with all the bytes
  gathered. A response of stdout, 0x04, stderr, 0x04 and \<^verbatim>\<open>>\<close> without the marker is such a
  response, unless its output holds \<^verbatim>\<open>raw REPL\<close> or \<^verbatim>\<open>OK\<close> by itself.
\<close>

theorem unmarked_response_runs_to_deadline:
  assumes "\<forall>k<j. fst (env k) < tmo \<and> snd (env k) \<noteq> None" and "\<not> fst (env j) < tmo"
    and "\<not> sublist ''OK'' (gathered env j)" and "\<not> sublist ''raw REPL'' (gathered env j)"
  shows "rwt_run tmo env 0 0 [] = Some (gathered env j, j, pauses env j)"
proof -
  have "\<forall>k<j. fst (env k) < tmo \<and> snd (env k) \<noteq> None
      \<and> \<not> read_complete (decode ([] @ gathered env (Suc k)))"
    using assms(1) incomplete_without_markers [OF assms(3,4)] by simp
  then have "rwt_run tmo env 0 0 [] = Some ([] @ gathered env j, 0 + j, 0 + pauses env j)"
    using assms(2) by (rule rwt_run_expires)
  then show ?thesis by simp
qed

theorem unmarked_response_runs_to_deadline_witness:
  "rwt_run (2000 :: nat)
     (\<lambda>k. if k = 0 then (0, Some (Returned [CHR ''2'', CHR 0x04, CHR 0x04, CHR ''>'']))
          else (2000, Some (Returned []))) 0 0 []
   = Some ([CHR ''2'', CHR 0x04, CHR 0x04, CHR ''>''], 1, 0)"
  using unmarked_response_runs_to_deadline
    [of 1 "\<lambda>k. if k = 0 then (0, Some (Returned [CHR ''2'', CHR 0x04, CHR 0x04, CHR ''>'']))
          else (2000, Some (Returned []))" "2000 :: nat"]
  by (simp add: gathered_def pauses_def py_in_sublist [symmetric])

text \<open>
  The response \<^verbatim>\<open>2 0x04 0x04 >\<close> (stdout, both delimiters, the prompt, no marker) does
  not pass the check: the read is not left before its deadline of 2000 ms.
\<close>

theorem no_ok_response_counterexample:
  "\<not> py_in ''OK'' [CHR ''2'', CHR 0x04, CHR 0x04, CHR ''>'']
   \<and> \<not> py_in ''raw REPL'' [CHR ''2'', CHR 0x04, CHR 0x04, CHR ''>'']
   \<and> count_list [CHR ''2'', CHR 0x04, CHR 0x04, CHR ''>''] (CHR 0x04) = 2
   \<and> \<not> read_complete (decode [CHR ''2'', CHR 0x04, CHR 0x04, CHR ''>''])
   \<and> fst (rwt_loop 2000 [(0, Returned [CHR ''2'', CHR 0x04, CHR 0x04, CHR ''>''])] 0 [])
       = [CHR ''2'', CHR 0x04, CHR 0x04, CHR ''>'']
   \<and> 2000 \<le> snd (rwt_loop 2000 [(0, Returned [CHR ''2'', CHR 0x04, CHR 0x04, CHR ''>''])] 0 [])"
proof -
  let ?r = "[CHR ''2'', CHR 0x04, CHR 0x04, CHR ''>'']"
  have n: "\<not> read_complete (decode ?r)"
    by (simp add: read_complete_def raw_repl_complete_def execution_output_found_def
        ustr_def utf8_step_def)
  then have "rwt_loop 2000 [(0, Returned ?r)] 0 [] = rwt_loop 2000 [] 0 ?r"
    by (simp add: rwt_loop.simps(2))
  moreover have "2000 \<le> snd (rwt_loop 2000 [] 0 ?r)"
    using rwt_silent_time [of 0 2000 ?r] by simp
  ultimately show ?thesis
    using n rwt_silent_buffer [of 2000 0 ?r] by simp
qed

text \<open>
  C4. \<^verbatim>\<open>read_with_timeout\<close> does not count delimiters: as soon as the buffer holds \<^verbatim>\<open>OK\<close>
  and at least one 0x04 byte the response is accepted, and the loop returns the buffer at
  the time that read ended.
\<close>

theorem one_delimiter_accepted:
  assumes "d \<noteq> []" and "sublist ''OK'' (buffer @ d)" and "CHR 0x04 \<in> set (buffer @ d)"
    and "elapsed < timeout_ms"
  shows "rwt_loop timeout_ms ((took, Returned d) # ch) elapsed buffer = (buffer @ d, elapsed + took)"
proof -
  have "read_complete (decode (buffer @ d))"
    using assms(2,3) by (simp only: read_complete_bytes simp_thms)
  then show ?thesis
    using assms(1,4) by (simp add: rwt_loop.simps)
qed

theorem one_delimiter_accepted_witness:
  "rwt_loop 2000 [(5, Returned [CHR 0x04])] 100 ''OK3'' = ([CHR ''O'', CHR ''K'', CHR ''3'', CHR 0x04], 105)"
  using one_delimiter_accepted [of "[CHR 0x04]" "''OK3''" 100 2000 5 "[]"]
  by (simp add: py_in_sublist [symmetric])

text \<open>A response with a single delimiter is accepted at once.\<close>

theorem one_delimiter_counterexample:
  "count_list [CHR ''O'', CHR ''K'', CHR ''3'', CHR 0x04] (CHR 0x04) = 1
   \<and> rwt_loop 2000 [(0, Returned [CHR ''O'', CHR ''K'', CHR ''3'', CHR 0x04])] 0 []
       = ([CHR ''O'', CHR ''K'', CHR ''3'', CHR 0x04], 0)"
  by (simp add: rwt_loop.simps read_complete_def raw_repl_complete_def
      execution_output_found_def ustr_def utf8_step_def)

section \<open>Outcomes of a read\<close>

text \<open>
  C5. \<^verbatim>\<open>read_with_timeout\<close> has one kind of result, the buffer; a failure of the channel
  is no outcome of its own. A read that raises is swallowed by the bare \<^verbatim>\<open>except\<close>: the
  loop sleeps and polls again for as long as its loop test passes. For every pipe and
  clock, after any number \<open>j\<close> of reads that all raised, with \<open>j\<close> sleeps: the call returns
  the unchanged buffer when the next loop test fails; it returns the completed buffer when
  the next read brings the text awaited; and it never returns when the next read never
  returns.
\<close>

theorem failed_reads_are_retried:
  assumes "\<forall>k<j. fst (env k) < tmo \<and> (\<exists>e. snd (env k) = Some (Raised e))"
  shows "(\<not> fst (env j) < tmo \<longrightarrow> rwt_run tmo env 0 0 buffer = Some (buffer, j, j))
    \<and> (fst (env j) < tmo \<and> snd (env j) = Some (Returned d) \<and> d \<noteq> []
         \<and> read_complete (decode (buffer @ d))
       \<longrightarrow> rwt_run tmo env 0 0 buffer = Some (buffer @ d, j, j))
    \<and> (fst (env j) < tmo \<and> snd (env j) = None \<longrightarrow> rwt_run tmo env 0 0 buffer = None)"
proof -
  have "rwt_run tmo env 0 0 buffer = rwt_run tmo (\<lambda>k. env (j + k)) (0 + j) (0 + j) buffer"
    using assms by (rule rwt_run_skip)
  then have skip: "rwt_run tmo env 0 0 buffer = rwt_run tmo (\<lambda>k. env (j + k)) j j buffer"
    by simp
  show ?thesis
    unfolding skip by (subst rwt_run.simps, subst rwt_run.simps, subst rwt_run.simps) simp
qed

theorem failed_reads_are_retried_witness:
  "rwt_run (2000 :: nat)
     (\<lambda>k. if k < 2 then (10 * k, Some (Raised OSError)) else (20, Some (Returned ''raw REPL>'')))
     0 0 []
   = Some (''raw REPL>'', 2, 2)"
  using failed_reads_are_retried
    [of 2 "\<lambda>k. if k < 2 then (10 * k, Some (Raised OSError)) else (20, Some (Returned ''raw REPL>''))"
      "2000 :: nat" "[]" "''raw REPL>''"]
  by (simp add: read_complete_def raw_repl_complete_def ustr_def utf8_step_def)

text \<open>
  The first read fails; the loop does not report it, polls again and returns the banner
  of the second read.
\<close>

theorem swallowed_failure_counterexample:
  "fst (rwt_loop 2000 [(0, Raised OSError), (0, Returned ''raw REPL>'')] 0 []) = ''raw REPL>''
   \<and> map_option fst (rwt_run (2000 :: nat)
        (\<lambda>k. if k = 0 then (0, Some (Raised OSError)) else (10, Some (Returned ''raw REPL>'')))
        0 0 []) = Some ''raw REPL>''"
  by (simp add: rwt_loop.simps rwt_run.simps later_def poll_interval_def read_complete_def
      raw_repl_complete_def ustr_def utf8_step_def)

text \<open>
  C6. A call that never passes the completion check should return within one poll
  interval of its deadline and never hold its caller for ever. \<^verbatim>\<open>read_with_timeout\<close> looks
  at the clock between two reads only, and \<^verbatim>\<open>debug_csharp_protocol.py\<close> reads a pipe that
  it never makes non-blocking: with a deadline of 2000 ms, a read that waits 5000 ms for
  the byte \<^verbatim>\<open>x\<close> makes the call return at 5000 ms, and a read that never returns makes the
  call never return.
\<close>

theorem blocking_read_overruns_deadline:
  "rwt_loop 2000 [(5000, Returned ''x'')] 0 [] = (''x'', 5000)
   \<and> \<not> 5000 \<le> 2000 + poll_interval
   \<and> rwt_run (2000 :: nat) (\<lambda>k. (0, None)) 0 0 [] = None"
  by (simp add: rwt_loop.simps rwt_expired rwt_run.simps poll_interval_def read_complete_def
      raw_repl_complete_def execution_output_found_def ustr_def utf8_step_def)

text \<open>
  C9. No floor is applied to a deadline: the loop test of \<^verbatim>\<open>read_with_timeout\<close> compares
  the elapsed time with the timeout of its caller as it is, whatever its value. For every
  timeout, pipe and clock: a call whose reads return and whose buffer never passes the
  completion check is left at the first loop test at which the elapsed time is not below
  the timeout supplied, with the bytes gathered until then.
\<close>

theorem deadline_test_uses_supplied_timeout:
  assumes "\<forall>k<j. fst (env k) < tmo \<and> snd (env k) \<noteq> None
             \<and> \<not> read_complete (decode (gathered env (Suc k)))"
    and "\<not> fst (env j) < tmo"
  shows "rwt_run tmo env 0 0 [] = Some (gathered env j, j, pauses env j)"
proof -
  have "\<forall>k<j. fst (env k) < tmo \<and> snd (env k) \<noteq> None
      \<and> \<not> read_complete (decode ([] @ gathered env (Suc k)))"
    using assms(1) by simp
  then have "rwt_run tmo env 0 0 [] = Some ([] @ gathered env j, 0 + j, 0 + pauses env j)"
    using assms(2) by (rule rwt_run_expires)
  then show ?thesis by simp
qed

theorem deadline_test_uses_supplied_timeout_witness:
  "rwt_run (25 :: nat) (\<lambda>k. (10 * k, Some (Returned []))) 0 0 [] = Some ([], 3, 3)"
proof -
  have "\<forall>k<3. fst (10 * k, Some (Returned [])) < (25 :: nat)
      \<and> snd (10 * k, Some (Returned [])) \<noteq> None
      \<and> \<not> read_complete (decode (gathered (\<lambda>k. (10 * k, Some (Returned []))) (Suc k)))"
    by (auto simp: numeral_3_eq_3 less_Suc_eq gathered_def read_complete_def
        raw_repl_complete_def execution_output_found_def ustr_def)
  then show ?thesis
    using deadline_test_uses_supplied_timeout [of 3 "\<lambda>k. (10 * k, Some (Returned []))" "25 :: nat"]
    by (simp add: gathered_def pauses_def numeral_3_eq_3)
qed

text \<open>
  With a timeout of 500 ms a read ends before the 2 s of the prompt class; the execution
  read of \<^verbatim>\<open>debug_csharp_protocol.py\<close> (line 99), with 2000 ms, ends before the 10 s of the
  execution class; and the prompt read of \<^verbatim>\<open>test_subprocess_fix.py\<close>, with its deadline
  of one second, ends before the 2 s of the prompt class.
\<close>

theorem no_floor_counterexample:
  "snd (rwt_loop 500 [] 0 []) < floor_ms Prompt
   \<and> snd (rwt_loop 2000 [] 0 []) < floor_ms Execution
   \<and> snd (style_loop [] 0 []) < floor_ms Prompt"
  using rwt_silent_time [of 0 500 "[]"] rwt_silent_time [of 0 2000 "[]"]
  by (simp add: style_prompt_deadline poll_interval_def)

section \<open>Draining\<close>




section \<open>Chunk size and chunk path\<close>

text \<open>
  C7. The chunk size of the chunk state is within 64 and 512 bytes in every reachable
  state: the initial size is 64 for a payload of at most 256 bytes, 256 for at most 1024
  bytes and 512 above, and after any sequence of completed or failed chunks, whatever the
  threshold and the amounts of growing and shrinking, the size is still at least 64 and at
  most 512. The chunk size that \<^verbatim>\<open>test_hardware.py\<close> selects is within the bounds too.
\<close>

theorem chunk_size_within_bounds:
  "chunk_size (initial_state n) = (if n \<le> 256 then 64 else if n \<le> 1024 then 256 else 512)
   \<and> 64 \<le> chunk_size (foldl (after_chunk threshold up down) (initial_state n) rs)
   \<and> chunk_size (foldl (after_chunk threshold up down) (initial_state n) rs) \<le> 512
   \<and> 64 \<le> simplified_chunk_size n \<and> simplified_chunk_size n \<le> 512"
  using foldl_in_bounds [OF initial_in_bounds, of threshold up down n rs]
  by (simp add: in_bounds_def min_chunk_def max_chunk_def initial_state_def chunk_size_for_def
      simplified_chunk_size_def)

text \<open>
  C8. For every byte payload, also one whose length is not a multiple of the chunk size,
  and every chunk size among 64, 256 and 512: slicing the payload, base64-encoding each
  slice, then decoding the chunks and appending their bytes gives the payload back.
\<close>

theorem chunked_base64_roundtrip:
  "n \<in> {64, 256, 512} \<Longrightarrow> receive_chunks (send_chunks n payload) = Some payload"
  using concat_slices [of n payload] by (auto simp: send_chunks_def receive_encoded)

theorem chunked_base64_roundtrip_witness:
  "receive_chunks (send_chunks 64 ''raw\<newline>REPL'') = Some ''raw\<newline>REPL''"
  using chunked_base64_roundtrip [of 64 "''raw\<newline>REPL''"] by simp

section \<open>Classification and stdout\<close>

lemma split_eot_append: "CHR 0x04 \<notin> set a \<Longrightarrow> split_eot (a @ CHR 0x04 # b) = Some (a, b)"
  by (induction a) auto

lemma parse_framed:
  "CHR 0x04 \<notin> set out \<Longrightarrow> CHR 0x04 \<notin> set err \<Longrightarrow>
   classified_of (parse_response errnos code took (out @ CHR 0x04 # err @ CHR 0x04 # prompt))
     = Inr (if err = [] then None else classify errnos (decode err))"
  by (simp add: parse_response_def classified_of_def split_eot_append)

text \<open>
  C3. The classified error of an execution result depends on the error-channel slice
  alone: two responses with the same bytes between their two 0x04 delimiters are classified
  alike, whatever their stdout, their prompt, the code submitted and the time taken; and
  with an empty slice there is no classified error, whatever stdout holds. The witness has
  the stdout text \<^verbatim>\<open>The test failed successfully - this is expected behavior\<close>.
\<close>

theorem classification_ignores_stdout:
  assumes "CHR 0x04 \<notin> set out1" and "CHR 0x04 \<notin> set out2" and "CHR 0x04 \<notin> set err"
  shows "classified_of (parse_response errnos code1 took1 (out1 @ CHR 0x04 # err @ CHR 0x04 # prompt1))
       = classified_of (parse_response errnos code2 took2 (out2 @ CHR 0x04 # err @ CHR 0x04 # prompt2))
     \<and> classified_of (parse_response errnos code1 took1 (out1 @ CHR 0x04 # [] @ CHR 0x04 # prompt1))
       = Inr None"
proof -
  have "classified_of (parse_response errnos code1 took1 (out1 @ CHR 0x04 # err @ CHR 0x04 # prompt1))
      = Inr (if err = [] then None else classify errnos (decode err))"
    using assms(1,3) by (rule parse_framed)
  moreover have "classified_of (parse_response errnos code2 took2 (out2 @ CHR 0x04 # err @ CHR 0x04 # prompt2))
      = Inr (if err = [] then None else classify errnos (decode err))"
    using assms(2,3) by (rule parse_framed)
  moreover have "classified_of (parse_response errnos code1 took1 (out1 @ CHR 0x04 # [] @ CHR 0x04 # prompt1))
      = Inr None"
    using parse_framed [OF assms(1), of "[]" errnos code1 took1 prompt1] by simp
  ultimately show ?thesis by simp
qed

theorem classification_ignores_stdout_witness:
  "classified_of (parse_response [''ENOENT''] ''print(1)'' 5
      (''The test failed successfully - this is expected behavior''
         @ CHR 0x04 # ''MemoryError: x'' @ CHR 0x04 # ''>''))
     = classified_of (parse_response [''ENOENT''] ''1+2'' 7
      (''2'' @ CHR 0x04 # ''MemoryError: x'' @ CHR 0x04 # ''>''))
   \<and> classified_of (parse_response [''ENOENT''] ''print(1)'' 5
      (''The test failed successfully - this is expected behavior'' @ CHR 0x04 # [] @ CHR 0x04 # ''>''))
     = Inr None"
  using classification_ignores_stdout
    [where ?out1.0 = "''The test failed successfully - this is expected behavior''"
       and ?out2.0 = "''2''" and err = "''MemoryError: x''" and errnos = "[''ENOENT'']"
       and ?code1.0 = "''print(1)''" and ?took1.0 = 5 and ?prompt1.0 = "''>''"
       and ?code2.0 = "''1+2''" and ?took2.0 = 7 and ?prompt2.0 = "''>''"]
  by simp

end
